theory Spec2Isabelle
  imports Complex_Main "HOL-Library.Multiset" "HOL-Library.Char_ord" "HOL-Library.List_Lexorder"
begin

section \<open>Text formatting\<close>

text \<open>
  Python strings are modelled as \<open>string\<close>, that is lists of 8-bit characters: the URLs,
  file names and payloads of this development stay within code points below 256, where
  the only characters matched by the regular-expression class \<^verbatim>\<open>\d\<close> are the ten ASCII
  digits.  Python's unbounded integers are \<open>int\<close>; lengths and counters that the code
  only ever increments from zero are \<open>nat\<close>.
\<close>

definition chiffre :: "nat \<Rightarrow> char" where
  "chiffre d = ''0123456789'' ! d"

text \<open>\<^verbatim>\<open>str(n)\<close> for a non-negative integer: its decimal digits, most significant first.\<close>

fun str_nat :: "nat \<Rightarrow> string" where
  "str_nat n = (if n < 10 then [chiffre n] else str_nat (n div 10) @ [chiffre (n mod 10)])"

declare str_nat.simps [simp del]

definition zfill :: "nat \<Rightarrow> string \<Rightarrow> string" where
  "zfill w s = replicate (w - length s) (CHR ''0'') @ s"

text \<open>
  \<^verbatim>\<open>"{:0wd}".format(n)\<close>: sign-aware zero padding to a minimum width of \<open>w\<close>; the sign
  of a negative number counts in the width and comes before the zeros.
\<close>

definition format_0d :: "nat \<Rightarrow> int \<Rightarrow> string" where
  "format_0d w n =
     (if n < 0 then CHR ''-'' # zfill (w - 1) (str_nat (nat (- n)))
      else zfill w (str_nat (nat n)))"

text \<open>The character class \<^verbatim>\<open>\\d\<close> on 8-bit characters.\<close>

definition est_chiffre :: "char \<Rightarrow> bool" where
  "est_chiffre c = (c \<in> set ''0123456789'')"

text \<open>\<^verbatim>\<open>int(s)\<close> on a string of decimal digits, used to read back a formatted number.\<close>

definition valeur :: "string \<Rightarrow> nat" where
  "valeur s = foldl (\<lambda>a c. 10 * a + (of_char c - 48)) 0 s"

section \<open>URL patterns\<close>

text \<open>
  The dictionary returned by \<^verbatim>\<open>analyser_url\<close> has the key \<^verbatim>\<open>"type"\<close> with one of two
  values, and the keys of that variant.
\<close>

datatype pattern =
  Dossier (prefix: string) (middle: string) (suffix: string) (digits: nat)
| Simple (prefix: string) (suffix: string) (digits: nat)

fun generer_url :: "pattern \<Rightarrow> int \<Rightarrow> string" where
  "generer_url (Dossier pre mid suf w) page =
     pre @ format_0d 4 page @ ''/'' @ mid @ format_0d 4 page @ suf"
| "generer_url (Simple pre suf w) page =
     pre @ format_0d w page @ suf"

section \<open>Pattern detection\<close>

text \<open>
  The two regular expressions of \<^verbatim>\<open>analyser_url\<close> are modelled by the search that
  Python's backtracking matcher performs on them.  \<^verbatim>\<open>$\<close> (without \<^verbatim>\<open>re.MULTILINE\<close>)
  holds at the end of the string and just before a newline that ends the string.
\<close>

definition fin_de_chaine :: "string \<Rightarrow> bool" where
  "fin_de_chaine s = (s = [] \<or> s = [CHR 0x0A])"

definition minuscule :: "char \<Rightarrow> char" where
  "minuscule c =
     (let n = (of_char c :: nat) in if 65 \<le> n \<and> n \<le> 90 then char_of (n + 32) else c)"

fun paresseux ::
  "(char \<Rightarrow> bool) \<Rightarrow> (string \<Rightarrow> 'a option) \<Rightarrow> string \<Rightarrow> string \<Rightarrow> (string \<times> 'a) option" where
  "paresseux P k acc [] = map_option (Pair acc) (k [])"
| "paresseux P k acc (c # cs) =
     (case k (c # cs) of
        Some r \<Rightarrow> Some (acc, r)
      | None \<Rightarrow> if P c then paresseux P k (acc @ [c]) cs else None)"

fun glouton ::
  "(char \<Rightarrow> bool) \<Rightarrow> (string \<Rightarrow> 'a option) \<Rightarrow> string \<Rightarrow> string \<Rightarrow> (string \<times> 'a) option" where
  "glouton P k acc [] = (if acc = [] then None else map_option (Pair acc) (k []))"
| "glouton P k acc (c # cs) =
     (case (if P c then glouton P k (acc @ [c]) cs else None) of
        Some r \<Rightarrow> Some r
      | None \<Rightarrow> if acc = [] then None else map_option (Pair acc) (k (c # cs)))"

definition quatre_chiffres :: "string \<Rightarrow> bool" where
  "quatre_chiffres g = (length g = 4 \<and> list_all est_chiffre g)"

definition queue_dossier :: "string \<Rightarrow> (string \<times> string) option" where
  "queue_dossier s =
     (let g4 = take 4 s; g5 = take 9 (drop 4 s) in
      if quatre_chiffres g4 \<and> take 1 g5 = ''_'' \<and> quatre_chiffres (take 4 (drop 1 g5))
         \<and> drop 5 g5 = ''.jpg'' \<and> fin_de_chaine (drop 13 s)
      then Some (g4, g5) else None)"

definition suite_dossier :: "string \<Rightarrow> (string \<times> string \<times> string \<times> string) option" where
  "suite_dossier s =
     (let g2 = take 4 s in
      if quatre_chiffres g2 \<and> take 1 (drop 4 s) = ''/''
      then map_option (\<lambda>(g3, g4, g5). (g2, g3, g4, g5))
             (glouton (\<lambda>c. c \<noteq> CHR ''/'') queue_dossier [] (drop 5 s))
      else None)"

definition regle_dossier :: "string \<Rightarrow> (string \<times> string \<times> string \<times> string \<times> string) option" where
  "regle_dossier url = paresseux (\<lambda>c. c \<noteq> CHR 0x0A) suite_dossier [] url"

definition queue_simple :: "string \<Rightarrow> (string \<times> string) option" where
  "queue_simple s =
     (let g2 = take 4 s; g3 = take 4 (drop 4 s) in
      if quatre_chiffres g2 \<and> map minuscule g3 = ''.jpg'' \<and> fin_de_chaine (drop 8 s)
      then Some (g2, g3) else None)"

definition regle_simple :: "string \<Rightarrow> (string \<times> string \<times> string) option" where
  "regle_simple url = paresseux (\<lambda>c. c \<noteq> CHR 0x0A) queue_simple [] url"

definition analyser_url :: "(string \<Rightarrow> string) \<Rightarrow> string \<Rightarrow> pattern option" where
  "analyser_url unquote url0 =
     (let url = unquote url0 in
      case regle_dossier url of
        Some (g1, g2, g3, g4, g5) \<Rightarrow> Some (Dossier g1 g3 g5 4)
      | None \<Rightarrow>
          (case regle_simple url of
             Some (g1, g2, g3) \<Rightarrow> Some (Simple g1 g3 (length g2))
           | None \<Rightarrow> None))"

text \<open>
  A continuation succeeds at no more than one position of a string: the property that
  makes the result of a backtracking search independent of the order of the search.
\<close>

definition succes_unique :: "(string \<Rightarrow> 'a option) \<Rightarrow> string \<Rightarrow> bool" where
  "succes_unique k s = (\<forall>i j. i \<le> length s \<and> j \<le> length s \<and> k (drop i s) \<noteq> None \<and> k (drop j s) \<noteq> None \<longrightarrow> i = j)"

text \<open>
  \<^verbatim>\<open>requests.utils.unquote\<close> is a library function and a parameter of \<open>analyser_url\<close>
  above.  \<open>unquote_ascii\<close> is what it computes on a URL whose percent escapes all
  denote ASCII bytes (\<^verbatim>\<open>%00\<close> to \<^verbatim>\<open>%7F\<close>); an escape of a byte from \<^verbatim>\<open>0x80\<close> on, which
  the library decodes as part of a UTF-8 sequence, is outside this model and left as it
  is.
\<close>

definition hex_val :: "char \<Rightarrow> nat option" where
  "hex_val c = map_of (zip ''0123456789abcdefABCDEF'' ([0 ..< 16] @ [10 ..< 16])) c"

fun unquote_ascii :: "string \<Rightarrow> string" where
  "unquote_ascii (c # h # l # rest) =
     (case (if c = CHR ''%'' then hex_val h else None, hex_val l) of
        (Some a, Some b) \<Rightarrow>
          if 16 * a + b < 128 then char_of (16 * a + b) # unquote_ascii rest
          else c # unquote_ascii (h # l # rest)
      | _ \<Rightarrow> c # unquote_ascii (h # l # rest))"
| "unquote_ascii s = s"

section \<open>The environment\<close>

text \<open>
  What the program takes from outside is a record of functions: the library's
  percent-decoding, the answer of the server to a GET request (\<open>Inl\<close> the text of the
  exception that \<^verbatim>\<open>requests.get\<close> raised, \<open>Inr\<close> the status code and the payload), the
  outcome of opening and writing a page file (\<open>Some\<close> the text of the exception raised),
  the order in which \<^verbatim>\<open>as_completed\<close> yields the finished downloads, whether an
  image file opens, resizes and converts without an exception, and the size in bytes of
  the PDF saved under a name from a list of images.  An image is identified with the
  file it was read from.  Python's floating-point numbers are modelled by exact rational
  numbers.
\<close>

type_synonym tache = "int \<times> string \<times> string"

record env =
  unquote :: "string \<Rightarrow> string"
  http_get :: "string \<Rightarrow> string + nat \<times> string"
  ecrire :: "string \<Rightarrow> string \<Rightarrow> string option"
  ordre :: "tache list \<Rightarrow> tache list"
  decodable :: "string \<Rightarrow> bool"
  taille_pdf :: "nat \<Rightarrow> string \<Rightarrow> string list \<Rightarrow> nat"

record config =
  exemple_url :: string
  nb_pages :: int
  page_debut :: int
  output_pdf :: string
  output_dir :: string
  max_pdf_size_mb :: rat
  max_width :: nat
  nb_threads :: int

section \<open>Fetching\<close>

text \<open>
  \<^verbatim>\<open>os.path.join\<close> for POSIX paths, \<^verbatim>\<open>telecharger_page\<close> with its \<^verbatim>\<open>try\<close> block (which
  covers the request and the writing of the file), and the loop of \<^verbatim>\<open>main\<close> that sorts
  the results, taken in order of completion, into \<^verbatim>\<open>fichiers\<close> and \<^verbatim>\<open>erreurs\<close>.
\<close>

definition path_join :: "string \<Rightarrow> string \<Rightarrow> string" where
  "path_join a b =
     (if take 1 b = ''/'' then b
      else if a = [] \<or> last a = CHR ''/'' then a @ b
      else a @ ''/'' @ b)"

definition nom_fichier :: "string \<Rightarrow> int \<Rightarrow> string" where
  "nom_fichier dir page = path_join dir (''page_'' @ format_0d 4 page @ ''.jpg'')"

definition telecharger_page :: "env \<Rightarrow> tache \<Rightarrow> int \<times> string option \<times> string option" where
  "telecharger_page E args =
     (case args of (page, url, dir) \<Rightarrow>
        let filename = nom_fichier dir page in
        case http_get E url of
          Inl e \<Rightarrow> (page, None, Some e)
        | Inr (status_code, content) \<Rightarrow>
            if status_code = 200 \<and> length content > 10000 then
              (case ecrire E filename content of
                 None \<Rightarrow> (page, Some filename, None)
               | Some e \<Rightarrow> (page, None, Some e))
            else (page, None, Some (''size='' @ str_nat (length content))))"

fun collecter ::
  "(int \<times> string option \<times> string option) list \<Rightarrow> string list \<times> (int \<times> string option) list
   \<Rightarrow> string list \<times> (int \<times> string option) list" where
  "collecter [] acc = acc"
| "collecter ((page, filepath, err) # rs) (fichiers, erreurs) =
     (if filepath \<noteq> None \<and> filepath \<noteq> Some []
      then collecter rs (fichiers @ [the filepath], erreurs)
      else collecter rs (fichiers, erreurs @ [(page, err)]))"

definition preparer_taches :: "config \<Rightarrow> pattern \<Rightarrow> tache list" where
  "preparer_taches C pat =
     map (\<lambda>page. (page, generer_url pat page, output_dir C))
       [page_debut C ..  page_debut C + nb_pages C - 1]"

definition telechargement :: "env \<Rightarrow> tache list \<Rightarrow> string list \<times> (int \<times> string option) list" where
  "telechargement E taches = collecter (map (telecharger_page E) (ordre E taches)) ([], [])"

section \<open>Packing\<close>

text \<open>
  \<^verbatim>\<open>int(x)\<close> truncates towards zero; a slice \<^verbatim>\<open>xs[i:j]\<close> counts a negative bound from
  the end and clamps both bounds to the list.  The state of the loop of
  \<^verbatim>\<open>creer_pdf_split\<close> is its four variables and, as \<open>ecrits\<close>, the documents saved so
  far with the images each one holds.  The loop may run forever: it is a partial
  function, and \<open>None\<close> is the run that never returns.
\<close>

datatype erreur = ZeroDivisionError | ValueError

definition py_int :: "rat \<Rightarrow> int" where
  "py_int x = (if 0 \<le> x then \<lfloor>x\<rfloor> else \<lceil>x\<rceil>)"

definition py_borne :: "nat \<Rightarrow> int \<Rightarrow> nat" where
  "py_borne n i = (if i < 0 then nat (int n + i) else min (nat i) n)"

definition py_slice :: "'a list \<Rightarrow> int \<Rightarrow> int \<Rightarrow> 'a list" where
  "py_slice xs i j =
     (let a = py_borne (length xs) i; b = py_borne (length xs) j
      in take (b - a) (drop a xs))"

record etat =
  pages_par_pdf :: int
  pdf_num :: nat
  idx :: int
  pdfs_crees :: "(string \<times> rat \<times> nat) list"
  ecrits :: "(string \<times> string list) list"

definition ajuster :: "rat \<Rightarrow> int \<Rightarrow> rat \<Rightarrow> erreur + int" where
  "ajuster max_size_mb pages taille_mo =
     (if taille_mo > max_size_mb * (11 / 10) then
        (if taille_mo = 0 then Inl ZeroDivisionError
         else Inr (py_int (of_int pages * max_size_mb / taille_mo)))
      else if taille_mo < max_size_mb * (7 / 10) then
        (if taille_mo = 0 then Inl ZeroDivisionError
         else Inr (py_int (of_int pages * max_size_mb / taille_mo * (9 / 10))))
      else Inr pages)"

definition iteration ::
  "env \<Rightarrow> string list \<Rightarrow> string \<Rightarrow> rat \<Rightarrow> nat \<Rightarrow> etat \<Rightarrow> erreur + etat" where
  "iteration E fichiers output_base max_size_mb max_w s =
     (let batch_files = py_slice fichiers (idx s) (idx s + pages_par_pdf s);
          images = filter (decodable E) batch_files
      in if images = [] then Inr (s\<lparr>idx := idx s + pages_par_pdf s\<rparr>)
         else
           let pdf_name = output_base @ ''_'' @ str_nat (pdf_num s) @ ''.pdf'';
               taille_mo = of_nat (taille_pdf E max_w pdf_name images) / (1024 * 1024)
           in case ajuster max_size_mb (pages_par_pdf s) taille_mo of
                Inl e \<Rightarrow> Inl e
              | Inr p \<Rightarrow>
                  Inr \<lparr>pages_par_pdf = p, pdf_num = pdf_num s + 1,
                       idx = idx s + int (length batch_files),
                       pdfs_crees = pdfs_crees s @ [(pdf_name, taille_mo, length images)],
                       ecrits = ecrits s @ [(pdf_name, images)]\<rparr>)"

partial_function (option) boucle ::
  "env \<Rightarrow> string list \<Rightarrow> string \<Rightarrow> rat \<Rightarrow> nat \<Rightarrow> etat \<Rightarrow> (erreur + etat) option" where
  "boucle E fichiers output_base max_size_mb max_w s =
     (if idx s < int (length fichiers) then
        (case iteration E fichiers output_base max_size_mb max_w s of
           Inl e \<Rightarrow> Some (Inl e)
         | Inr s' \<Rightarrow> boucle E fichiers output_base max_size_mb max_w s')
      else Some (Inr s))"

declare boucle.simps [code]

definition etat_initial :: "string list \<Rightarrow> rat \<Rightarrow> etat" where
  "etat_initial fichiers max_size_mb =
     (let pages = py_int (max_size_mb * 1024 / 350)
      in \<lparr>pages_par_pdf = (if pages \<ge> int (length fichiers) then int (length fichiers) else pages),
          pdf_num = 1, idx = 0, pdfs_crees = [], ecrits = []\<rparr>)"

definition executer_pdf_split ::
  "env \<Rightarrow> string list \<Rightarrow> string \<Rightarrow> rat \<Rightarrow> nat \<Rightarrow> (erreur + etat) option" where
  "executer_pdf_split E fichiers output_base max_size_mb max_w =
     boucle E fichiers output_base max_size_mb max_w (etat_initial fichiers max_size_mb)"

definition creer_pdf_split ::
  "env \<Rightarrow> string list \<Rightarrow> string \<Rightarrow> rat \<Rightarrow> nat \<Rightarrow> (erreur + (string \<times> rat \<times> nat) list) option" where
  "creer_pdf_split E fichiers output_base max_size_mb max_w =
     map_option (map_sum id pdfs_crees) (executer_pdf_split E fichiers output_base max_size_mb max_w)"

section \<open>The main program\<close>

text \<open>
  \<^verbatim>\<open>main\<close> up to the creation of the PDFs, with the constants of the configuration
  block as a record.  The result pairs how the run ended with the URLs requested over
  the network.
\<close>

datatype issue = URL_invalide | Aucune_page | Echec erreur | Termine "(string \<times> rat \<times> nat) list"

definition main :: "env \<Rightarrow> config \<Rightarrow> (issue \<times> string list) option" where
  "main E C =
     (case analyser_url (unquote E) (exemple_url C) of
        None \<Rightarrow> Some (URL_invalide, [])
      | Some pat \<Rightarrow>
          if nb_threads C \<le> 0 then Some (Echec ValueError, [])
          else
            let taches = preparer_taches C pat;
                requetes = map (\<lambda>t. fst (snd t)) taches;
                resultat = telechargement E taches
            in if fst resultat = [] then Some (Aucune_page, requetes)
               else
                 (case creer_pdf_split E (sort (fst resultat)) (output_pdf C)
                         (max_pdf_size_mb C) (max_width C) of
                    None \<Rightarrow> None
                  | Some (Inl e) \<Rightarrow> Some (Echec e, requetes)
                  | Some (Inr pdfs) \<Rightarrow> Some (Termine pdfs, requetes)))"

section \<open>Concrete environments and configurations\<close>

text \<open>
  An environment in which every request succeeds with a payload of 10001 bytes, every
  file is written and decoded, downloads complete in reverse order and a PDF takes
  400000 bytes per page; and the configuration block of the source.
\<close>

definition env_exemple :: env where
  "env_exemple =
     \<lparr>unquote = unquote_ascii,
      http_get = (\<lambda>url. Inr (200, replicate 10001 (CHR ''x''))),
      ecrire = (\<lambda>filename content. None),
      ordre = rev,
      decodable = (\<lambda>f. True),
      taille_pdf = (\<lambda>w pdf_name images. 400000 * length images)\<rparr>"

definition config_source :: config where
  "config_source =
     \<lparr>exemple_url = ''https://archives.haute-garonne.fr/archive/download?file=https://archives.haute-garonne.fr/data/files/ad31.diffusion/images/alto/Ged14/Thot/archives_ecrites/1NUM_AC_3201_3400/1_NUM_AC_3217/FRAD031_00001_NUM_AC_003217_0010/FRAD031_00001_NUM_AC_003217_0010_0001.jpg'',
      nb_pages = 249,
      page_debut = 1,
      output_pdf = ''Cadastr17e'',
      output_dir = ''temp_imagescadastre17e'',
      max_pdf_size_mb = 25,
      max_width = 2000,
      nb_threads = 20\<rparr>"

text \<open>The same environment with a disk that is full.\<close>

definition env_disque_plein :: env where
  "env_disque_plein =
     env_exemple\<lparr>ecrire := (\<lambda>filename content. Some ''[Errno 28] No space left on device'')\<rparr>"

text \<open>
  Environments in which a PDF takes 4 MiB per page, and in which the file \<^verbatim>\<open>c\<close> does
  not decode.
\<close>

definition env_gros :: env where
  "env_gros = env_exemple\<lparr>taille_pdf := (\<lambda>w pdf_name images. 4194304 * length images)\<rparr>"



section \<open>Properties of the formatting functions\<close>

lemma chiffre_val: "d < 10 \<Longrightarrow> of_char (chiffre d) = 48 + d"
  unfolding chiffre_def
  by (auto simp: less_Suc_eq numeral_eq_Suc)

lemma est_chiffre_chiffre: "d < 10 \<Longrightarrow> est_chiffre (chiffre d)"
  unfolding chiffre_def est_chiffre_def
  by (auto simp: less_Suc_eq numeral_eq_Suc)

lemma valeur_snoc: "valeur (s @ [c]) = 10 * valeur s + (of_char c - 48)"
  by (simp add: valeur_def)

lemma valeur_str_nat: "valeur (str_nat n) = n"
proof (induction n rule: str_nat.induct)
  case (1 n)
  show ?case
  proof (cases "n < 10")
    case True
    then show ?thesis
      by (subst str_nat.simps) (simp add: valeur_def chiffre_val)
  next
    case False
    with 1 show ?thesis
      by (subst str_nat.simps) (simp add: valeur_snoc chiffre_val)
  qed
qed

lemma chiffres_str_nat: "list_all est_chiffre (str_nat n)"
proof (induction n rule: str_nat.induct)
  case (1 n)
  then show ?case
    by (subst str_nat.simps) (simp add: est_chiffre_chiffre)
qed

lemma str_nat_nonvide: "str_nat n \<noteq> []"
  by (subst str_nat.simps) simp

lemma valeur_zeros: "valeur (replicate k (CHR ''0'') @ s) = valeur s"
proof -
  have "foldl (\<lambda>a c. 10 * a + (of_char c - 48)) 0 (replicate k (CHR ''0'')) = (0::nat)"
    by (induction k) simp_all
  then show ?thesis by (simp add: valeur_def)
qed

lemma valeur_zfill: "valeur (zfill w (str_nat n)) = n"
  by (simp add: zfill_def valeur_zeros valeur_str_nat)

lemma chiffres_zfill: "list_all est_chiffre s \<Longrightarrow> list_all est_chiffre (zfill w s)"
proof -
  have "est_chiffre (CHR ''0'')" by (simp add: est_chiffre_def)
  then show "list_all est_chiffre s \<Longrightarrow> list_all est_chiffre (zfill w s)"
    by (auto simp: zfill_def list_all_iff)
qed

lemma zfill_nonvide: "s \<noteq> [] \<Longrightarrow> zfill w s \<noteq> []"
  by (simp add: zfill_def)

lemma format_0d_chars:
  assumes "c \<in> set (format_0d w n)"
  shows "c = CHR ''-'' \<or> est_chiffre c"
proof (cases "n < 0")
  case True
  have "list_all est_chiffre (zfill (w - 1) (str_nat (nat (- n))))"
    by (rule chiffres_zfill [OF chiffres_str_nat])
  with assms True show ?thesis
    by (simp add: format_0d_def list_all_iff) blast
next
  case False
  have "list_all est_chiffre (zfill w (str_nat (nat n)))"
    by (rule chiffres_zfill [OF chiffres_str_nat])
  with assms False show ?thesis
    by (simp add: format_0d_def list_all_iff)
qed

lemma format_0d_inj: 
  assumes "format_0d w a = format_0d w b" shows "a = b"
proof -
  have neg: False if "x < 0" "\<not> y < 0" "format_0d w x = format_0d w y" for x y
  proof -
    from that have eq: "CHR ''-'' # zfill (w - 1) (str_nat (nat (- x))) = zfill w (str_nat (nat y))"
      by (simp add: format_0d_def)
    have "list_all est_chiffre (zfill w (str_nat (nat y)))"
      by (rule chiffres_zfill [OF chiffres_str_nat])
    with eq [symmetric] show False by (simp add: est_chiffre_def)
  qed
  show ?thesis
  proof (cases "a < 0"; cases "b < 0")
    assume "a < 0" "b < 0"
    with assms have "zfill (w - 1) (str_nat (nat (- a))) = zfill (w - 1) (str_nat (nat (- b)))"
      by (simp add: format_0d_def)
    then have "valeur (zfill (w - 1) (str_nat (nat (- a)))) = valeur (zfill (w - 1) (str_nat (nat (- b))))"
      by simp
    then have "nat (- a) = nat (- b)" by (simp only: valeur_zfill)
    with \<open>a < 0\<close> \<open>b < 0\<close> show ?thesis by simp
  next
    assume "\<not> a < 0" "\<not> b < 0"
    with assms have "valeur (zfill w (str_nat (nat a))) = valeur (zfill w (str_nat (nat b)))"
      by (simp add: format_0d_def)
    then have "nat a = nat b" by (simp only: valeur_zfill)
    with \<open>\<not> a < 0\<close> \<open>\<not> b < 0\<close> show ?thesis by simp
  next
    assume "a < 0" "\<not> b < 0" with neg assms show ?thesis by blast
  next
    assume "\<not> a < 0" "b < 0" with neg [of b a] assms show ?thesis by simp
  qed
qed

lemma append_sep_unique:
  assumes "c \<notin> set xs" "c \<notin> set xs'" "xs @ c # ys = xs' @ c # ys'"
  shows "xs = xs'"
proof -
  have "takeWhile (\<lambda>x. x \<noteq> c) (xs @ c # ys) = xs"
    using assms(1) by (subst takeWhile_append2) auto
  moreover have "takeWhile (\<lambda>x. x \<noteq> c) (xs' @ c # ys') = xs'"
    using assms(2) by (subst takeWhile_append2) auto
  ultimately show ?thesis using assms(3) by simp
qed

lemma slash_format_0d: "CHR ''/'' \<notin> set (format_0d w n)"
proof
  assume "CHR ''/'' \<in> set (format_0d w n)"
  from format_0d_chars [OF this] show False by (simp add: est_chiffre_def)
qed

section \<open>Rendering a page URL\<close>

text \<open>
  C9: for a fixed pattern, of either variant, two different page numbers never render to
  the same URL.
\<close>

theorem generer_url_injective:
  "n1 \<noteq> n2 \<Longrightarrow> generer_url p n1 \<noteq> generer_url p n2"
proof (cases p)
  case (Dossier pre mid suf w)
  show "n1 \<noteq> n2 \<Longrightarrow> generer_url p n1 \<noteq> generer_url p n2"
  proof
    assume ne: "n1 \<noteq> n2" and eq: "generer_url p n1 = generer_url p n2"
    from eq Dossier have "format_0d 4 n1 @ CHR ''/'' # (mid @ format_0d 4 n1 @ suf)
        = format_0d 4 n2 @ CHR ''/'' # (mid @ format_0d 4 n2 @ suf)" by simp
    then have "format_0d 4 n1 = format_0d 4 n2"
      by (rule append_sep_unique [OF slash_format_0d slash_format_0d])
    with ne format_0d_inj show False by blast
  qed
next
  case (Simple pre suf w)
  show "n1 \<noteq> n2 \<Longrightarrow> generer_url p n1 \<noteq> generer_url p n2"
  proof
    assume ne: "n1 \<noteq> n2" and eq: "generer_url p n1 = generer_url p n2"
    from eq Simple have "format_0d w n1 = format_0d w n2" by simp
    with ne format_0d_inj show False by blast
  qed
qed

theorem generer_url_injective_witness:
  "(1::int) \<noteq> 2 \<and>
   generer_url (Simple ''p'' ''.jpg'' 4) 1 \<noteq> generer_url (Simple ''p'' ''.jpg'' 4) 2"
  using generer_url_injective [of 1 2 "Simple ''p'' ''.jpg'' 4"] by simp

section \<open>The backtracking search\<close>

lemma succes_unique_Cons: "succes_unique k (c # s) \<Longrightarrow> succes_unique k s"
  unfolding succes_unique_def
proof (intro allI impI)
  fix i j
  assume u: "\<forall>i j. i \<le> length (c # s) \<and> j \<le> length (c # s) \<and> k (drop i (c # s)) \<noteq> None \<and> k (drop j (c # s)) \<noteq> None \<longrightarrow> i = j"
    and h: "i \<le> length s \<and> j \<le> length s \<and> k (drop i s) \<noteq> None \<and> k (drop j s) \<noteq> None"
  from h have "Suc i \<le> length (c # s) \<and> Suc j \<le> length (c # s) \<and> k (drop (Suc i) (c # s)) \<noteq> None \<and> k (drop (Suc j) (c # s)) \<noteq> None"
    by simp
  with u have "Suc i = Suc j" by blast
  then show "i = j" by simp
qed

lemma succes_unique_append: "succes_unique k (p @ s) \<Longrightarrow> succes_unique k s"
  by (induction p) (auto dest: succes_unique_Cons)

lemma glouton_sound:
  "glouton P k acc s = Some (g, r) \<Longrightarrow>
   \<exists>u v. s = u @ v \<and> g = acc @ u \<and> (\<forall>c\<in>set u. P c) \<and> g \<noteq> [] \<and> k v = Some r"
proof (induction s arbitrary: acc)
  case Nil
  then show ?case by (auto split: if_splits)
next
  case (Cons c cs)
  show ?case
  proof (cases "P c \<and> glouton P k (acc @ [c]) cs \<noteq> None")
    case True
    with Cons.prems have "glouton P k (acc @ [c]) cs = Some (g, r)"
      by (auto split: option.splits)
    from Cons.IH [OF this] obtain u v where
      "cs = u @ v" "g = (acc @ [c]) @ u" "\<forall>c\<in>set u. P c" "g \<noteq> []" "k v = Some r" by blast
    with True have "c # cs = (c # u) @ v \<and> g = acc @ (c # u) \<and> (\<forall>x\<in>set (c # u). P x) \<and> g \<noteq> [] \<and> k v = Some r"
      by simp
    then show ?thesis by blast
  next
    case False
    with Cons.prems have "acc \<noteq> []" "k (c # cs) = Some r" "g = acc"
      by (auto split: option.splits if_splits)
    then have "c # cs = [] @ (c # cs) \<and> g = acc @ [] \<and> (\<forall>x\<in>set []. P x) \<and> g \<noteq> [] \<and> k (c # cs) = Some r"
      by simp
    then show ?thesis by blast
  qed
qed

lemma paresseux_sound:
  "paresseux P k acc s = Some (g, r) \<Longrightarrow>
   \<exists>u v. s = u @ v \<and> g = acc @ u \<and> (\<forall>c\<in>set u. P c) \<and> k v = Some r"
proof (induction s arbitrary: acc)
  case Nil
  then show ?case by auto
next
  case (Cons c cs)
  show ?case
  proof (cases "k (c # cs)")
    case (Some r')
    with Cons.prems have "g = acc" "r' = r" by auto
    with Some have "c # cs = [] @ (c # cs) \<and> g = acc @ [] \<and> (\<forall>x\<in>set []. P x) \<and> k (c # cs) = Some r"
      by simp
    then show ?thesis by blast
  next
    case None
    with Cons.prems have pc: "P c" and rec: "paresseux P k (acc @ [c]) cs = Some (g, r)"
      by (auto split: if_splits)
    from Cons.IH [OF rec] obtain u v where
      "cs = u @ v" "g = (acc @ [c]) @ u" "\<forall>c\<in>set u. P c" "k v = Some r" by blast
    with pc have "c # cs = (c # u) @ v \<and> g = acc @ (c # u) \<and> (\<forall>x\<in>set (c # u). P x) \<and> k v = Some r"
      by simp
    then show ?thesis by blast
  qed
qed

lemma glouton_complete:
  assumes "\<forall>c\<in>set m. P c" "acc @ m \<noteq> []" "k s = Some r" "succes_unique k (m @ s)"
  shows "glouton P k acc (m @ s) = Some (acc @ m, r)"
  using assms
proof (induction m arbitrary: acc)
  case Nil
  then have acc: "acc \<noteq> []" by simp
  show ?case
  proof (cases s)
    case Nil
    with acc \<open>k s = Some r\<close> show ?thesis by simp
  next
    case (Cons c cs)
    have "glouton P k (acc @ [c]) cs = None"
    proof (rule ccontr)
      assume "glouton P k (acc @ [c]) cs \<noteq> None"
      then obtain g r' where "glouton P k (acc @ [c]) cs = Some (g, r')" by auto
      from glouton_sound [OF this] obtain u v where uv: "cs = u @ v" "k v = Some r'" by blast
      then have "k (drop (Suc (length u)) s) \<noteq> None" using Cons by simp
      moreover have "k (drop 0 s) \<noteq> None" using \<open>k s = Some r\<close> by simp
      moreover have "Suc (length u) \<le> length s" using Cons uv by simp
      ultimately have "Suc (length u) = 0"
        using Nil.prems(4) unfolding succes_unique_def by (metis append_Nil le0)
      then show False by simp
    qed
    with Cons acc \<open>k s = Some r\<close> show ?thesis by simp
  qed
next
  case (Cons c m)
  have "glouton P k (acc @ [c]) (m @ s) = Some ((acc @ [c]) @ m, r)"
  proof (rule Cons.IH)
    show "\<forall>c\<in>set m. P c" using Cons.prems(1) by simp
    show "(acc @ [c]) @ m \<noteq> []" by simp
    show "k s = Some r" by fact
    show "succes_unique k (m @ s)" using Cons.prems(4) by (auto dest: succes_unique_Cons)
  qed
  moreover have "P c" using Cons.prems(1) by simp
  ultimately show ?case by simp
qed

lemma paresseux_complete:
  assumes "\<forall>c\<in>set p. P c" "k s = Some r" "succes_unique k (p @ s)"
  shows "paresseux P k acc (p @ s) = Some (acc @ p, r)"
  using assms
proof (induction p arbitrary: acc)
  case Nil
  then show ?case by (cases s) simp_all
next
  case (Cons c p)
  have "k ((c # p) @ s) = None"
  proof (rule ccontr)
    assume "k ((c # p) @ s) \<noteq> None"
    then have "k (drop 0 ((c # p) @ s)) \<noteq> None" by simp
    moreover have "k (drop (length (c # p)) ((c # p) @ s)) \<noteq> None"
      using \<open>k s = Some r\<close> by simp
    ultimately have "0 = length (c # p)"
      using Cons.prems(3) unfolding succes_unique_def
      by (metis le0 length_append le_add1)
    then show False by simp
  qed
  moreover have "paresseux P k (acc @ [c]) (p @ s) = Some ((acc @ [c]) @ p, r)"
  proof (rule Cons.IH)
    show "\<forall>c\<in>set p. P c" using Cons.prems(1) by simp
    show "k s = Some r" by fact
    show "succes_unique k (p @ s)" using Cons.prems(3) by (auto dest: succes_unique_Cons)
  qed
  moreover have "P c" using Cons.prems(1) by simp
  ultimately show ?case by simp
qed

section \<open>The folder rule\<close>

lemma chiffre_pas_slash: "est_chiffre c \<Longrightarrow> c \<noteq> CHR ''/''"
  by (auto simp: est_chiffre_def)

lemma quatre_chiffres_pas_slash: "quatre_chiffres g \<Longrightarrow> CHR ''/'' \<notin> set g"
  by (auto simp: quatre_chiffres_def list_all_iff dest: chiffre_pas_slash)

lemma fin_de_chaine_pas_slash: "fin_de_chaine z \<Longrightarrow> CHR ''/'' \<notin> set z"
  by (auto simp: fin_de_chaine_def)

lemma take_drop_suite: "take n (drop m xs) @ drop (m + n) xs = drop m xs"
proof -
  have "take n (drop m xs) @ drop n (drop m xs) = drop m xs"
    by (rule append_take_drop_id)
  then show ?thesis by (simp add: add.commute)
qed

lemma queue_dossier_intro:
  assumes "quatre_chiffres d" "quatre_chiffres e" "fin_de_chaine z"
  shows "queue_dossier (d @ ''_'' @ e @ ''.jpg'' @ z) = Some (d, ''_'' @ e @ ''.jpg'')"
proof -
  from assms have ld: "length d = 4" and le: "length e = 4"
    by (simp_all add: quatre_chiffres_def)
  then show ?thesis using assms
    by (simp add: queue_dossier_def Let_def)
qed

lemma queue_dossier_elim:
  assumes "queue_dossier v = Some (g4, g5)"
  shows "\<exists>e z. v = g4 @ g5 @ z \<and> quatre_chiffres g4 \<and> g5 = ''_'' @ e @ ''.jpg''
           \<and> quatre_chiffres e \<and> fin_de_chaine z"
proof -
  from assms have g4: "g4 = take 4 v" and g5: "g5 = take 9 (drop 4 v)"
    and q4: "quatre_chiffres g4" and u: "take 1 g5 = ''_''"
    and qe: "quatre_chiffres (take 4 (drop 1 g5))" and j: "drop 5 g5 = ''.jpg''"
    and f: "fin_de_chaine (drop 13 v)"
    by (auto simp: queue_dossier_def Let_def split: if_splits)
  have "take 4 (drop 1 g5) @ drop (1 + 4) g5 = drop 1 g5"
    by (rule take_drop_suite)
  then have "take 1 g5 @ take 4 (drop 1 g5) @ drop 5 g5 = g5"
    by simp
  with u j have 5: "g5 = ''_'' @ take 4 (drop 1 g5) @ ''.jpg''" by (simp del: take_eq_Nil)
  have "take 9 (drop 4 v) @ drop (4 + 9) v = drop 4 v"
    by (rule take_drop_suite)
  then have "take 4 v @ take 9 (drop 4 v) @ drop 13 v = v"
    by simp
  with g4 g5 have "v = g4 @ g5 @ drop 13 v" by simp
  with q4 5 qe f show ?thesis by blast
qed

lemma queue_dossier_forme:
  assumes "queue_dossier v \<noteq> None"
  shows "CHR ''/'' \<notin> set v \<and> v \<noteq> [] \<and>
         (length v = 13 \<and> last v \<noteq> CHR 0x0A \<or> length v = 14 \<and> last v = CHR 0x0A)"
proof -
  from assms obtain g4 g5 where "queue_dossier v = Some (g4, g5)" by auto
  from queue_dossier_elim [OF this] obtain e z where
    v: "v = g4 @ ''_'' @ e @ ''.jpg'' @ z" and q: "quatre_chiffres g4" "quatre_chiffres e"
    and z: "fin_de_chaine z" by auto
  have "CHR ''/'' \<notin> set v"
    using quatre_chiffres_pas_slash [OF q(1)] quatre_chiffres_pas_slash [OF q(2)]
      fin_de_chaine_pas_slash [OF z] by (subst v) simp
  moreover have "length v = 13 \<and> last v \<noteq> CHR 0x0A \<or> length v = 14 \<and> last v = CHR 0x0A"
    using q z by (subst (1 2 3 4) v) (auto simp: quatre_chiffres_def fin_de_chaine_def)
  moreover have "v \<noteq> []" by (subst v) simp
  ultimately show ?thesis by blast
qed

lemma succes_unique_par_fin:
  assumes "\<And>v. k v \<noteq> None \<Longrightarrow> v \<noteq> [] \<and>
             (length v = n \<and> last v \<noteq> c \<or> length v = Suc n \<and> last v = c)"
  shows "succes_unique k s"
  unfolding succes_unique_def
proof (intro allI impI)
  fix i j
  assume h: "i \<le> length s \<and> j \<le> length s \<and> k (drop i s) \<noteq> None \<and> k (drop j s) \<noteq> None"
  from h assms [of "drop i s"] have i: "drop i s \<noteq> []"
    "length s - i = n \<and> last (drop i s) \<noteq> c \<or> length s - i = Suc n \<and> last (drop i s) = c"
    by auto
  from h assms [of "drop j s"] have j: "drop j s \<noteq> []"
    "length s - j = n \<and> last (drop j s) \<noteq> c \<or> length s - j = Suc n \<and> last (drop j s) = c"
    by auto
  from i(1) have li: "last (drop i s) = last s" by (simp add: last_drop)
  from j(1) have lj: "last (drop j s) = last s" by (simp add: last_drop)
  from i(2) j(2) li lj have "length s - i = length s - j" by auto
  with h show "i = j" by arith
qed

lemma succes_unique_queue_dossier: "succes_unique queue_dossier s"
  by (rule succes_unique_par_fin [where n = 13 and c = "CHR 0x0A"])
    (use queue_dossier_forme in auto)

lemma suite_dossier_intro:
  assumes "quatre_chiffres d2" "m \<noteq> []" "CHR ''/'' \<notin> set m" "queue_dossier v = Some (g4, g5)"
  shows "suite_dossier (d2 @ ''/'' @ m @ v) = Some (d2, m, g4, g5)"
proof -
  from assms(1) have l: "length d2 = 4" by (simp add: quatre_chiffres_def)
  have "glouton (\<lambda>c. c \<noteq> CHR ''/'') queue_dossier [] (m @ v) = Some ([] @ m, (g4, g5))"
    using assms by (intro glouton_complete succes_unique_queue_dossier) auto
  with l assms(1) show ?thesis
    by (simp add: suite_dossier_def Let_def)
qed

lemma suite_dossier_forme:
  assumes "suite_dossier t \<noteq> None"
  shows "4 < length t \<and> t ! 4 = CHR ''/'' \<and> CHR ''/'' \<notin> set (drop 5 t)"
proof -
  from assms have s: "take 1 (drop 4 t) = ''/''"
    and g: "glouton (\<lambda>c. c \<noteq> CHR ''/'') queue_dossier [] (drop 5 t) \<noteq> None"
    by (auto simp: suite_dossier_def Let_def split: if_splits)
  from g obtain g3 r where "glouton (\<lambda>c. c \<noteq> CHR ''/'') queue_dossier [] (drop 5 t) = Some (g3, r)"
    by auto
  from glouton_sound [OF this] obtain u v where
    uv: "drop 5 t = u @ v" "\<forall>c\<in>set u. c \<noteq> CHR ''/''" "queue_dossier v = Some r" by blast
  from uv(3) have "CHR ''/'' \<notin> set v" using queue_dossier_forme [of v] by simp
  with uv(1,2) have "CHR ''/'' \<notin> set (drop 5 t)" by auto
  moreover have "4 < length t \<and> t ! 4 = CHR ''/''"
  proof -
    from s have ne: "drop 4 t \<noteq> []" by auto
    then have l: "4 < length t" by simp
    from s ne have "hd (drop 4 t) = CHR ''/''" by (cases "drop 4 t") simp_all
    with l show ?thesis by (simp add: hd_drop_conv_nth)
  qed
  ultimately show ?thesis by blast
qed

lemma succes_unique_suite_dossier: "succes_unique suite_dossier s"
  unfolding succes_unique_def
proof (intro allI impI)
  fix i j
  assume h: "i \<le> length s \<and> j \<le> length s \<and> suite_dossier (drop i s) \<noteq> None
             \<and> suite_dossier (drop j s) \<noteq> None"
  have ord: False if "a < b" "b \<le> length s" "suite_dossier (drop a s) \<noteq> None"
    "suite_dossier (drop b s) \<noteq> None" for a b
  proof -
    from suite_dossier_forme [OF that(3)] have na: "CHR ''/'' \<notin> set (drop (a + 5) s)"
      by (simp add: add.commute)
    from suite_dossier_forme [OF that(4)] that(2)
    have b: "b + 4 < length s" "s ! (b + 4) = CHR ''/''"
      by (simp_all add: less_diff_conv add.commute)
    from that(1) have "b + 4 = (a + 5) + (b - a - 1)" by simp
    with b have "drop (a + 5) s ! (b - a - 1) = CHR ''/''" "b - a - 1 < length (drop (a + 5) s)"
      using that(1) by auto
    then have "CHR ''/'' \<in> set (drop (a + 5) s)" by (metis nth_mem)
    with na show False by simp
  qed
  show "i = j"
  proof (rule ccontr)
    assume "i \<noteq> j"
    then consider "i < j" | "j < i" by arith
    then show False using ord [of i j] ord [of j i] h by cases auto
  qed
qed

lemma regle_dossier_intro:
  assumes "CHR 0x0A \<notin> set p" "quatre_chiffres d2" "m \<noteq> []" "CHR ''/'' \<notin> set m"
    "quatre_chiffres d4" "quatre_chiffres e" "fin_de_chaine z"
  shows "regle_dossier (p @ d2 @ ''/'' @ m @ d4 @ ''_'' @ e @ ''.jpg'' @ z)
         = Some (p, d2, m, d4, ''_'' @ e @ ''.jpg'')"
proof -
  have q: "queue_dossier (d4 @ ''_'' @ e @ ''.jpg'' @ z) = Some (d4, ''_'' @ e @ ''.jpg'')"
    using assms by (intro queue_dossier_intro)
  have s: "suite_dossier (d2 @ ''/'' @ m @ d4 @ ''_'' @ e @ ''.jpg'' @ z)
           = Some (d2, m, d4, ''_'' @ e @ ''.jpg'')"
    using assms q by (intro suite_dossier_intro)
  have "paresseux (\<lambda>c. c \<noteq> CHR 0x0A) suite_dossier []
          (p @ d2 @ ''/'' @ m @ d4 @ ''_'' @ e @ ''.jpg'' @ z)
        = Some ([] @ p, (d2, m, d4, ''_'' @ e @ ''.jpg''))"
    using assms(1) s by (intro paresseux_complete succes_unique_suite_dossier) auto
  then show ?thesis by (simp add: regle_dossier_def)
qed

section \<open>The simple rule\<close>

lemma queue_simple_intro:
  assumes "quatre_chiffres d" "map minuscule x = ''.jpg''" "fin_de_chaine z"
  shows "queue_simple (d @ x @ z) = Some (d, x)"
proof -
  from assms(1) have ld: "length d = 4" by (simp add: quatre_chiffres_def)
  from assms(2) have "length (map minuscule x) = length ''.jpg''" by (rule arg_cong)
  then have lx: "length x = 4" by simp
  from ld lx assms show ?thesis
    by (simp add: queue_simple_def Let_def)
qed

lemma minuscule_newline: "minuscule c = CHR ''g'' \<Longrightarrow> c \<noteq> CHR 0x0A"
  by (auto simp: minuscule_def Let_def)

lemma queue_simple_elim:
  assumes "queue_simple v = Some (g2, g3)"
  shows "\<exists>z. v = g2 @ g3 @ z \<and> quatre_chiffres g2 \<and> map minuscule g3 = ''.jpg'' \<and> fin_de_chaine z"
proof -
  let ?C = "quatre_chiffres (take 4 v) \<and> map minuscule (take 4 (drop 4 v)) = ''.jpg''
            \<and> fin_de_chaine (drop 8 v)"
  have eq: "queue_simple v = (if ?C then Some (take 4 v, take 4 (drop 4 v)) else None)"
    by (simp only: queue_simple_def Let_def)
  have c: ?C
  proof (rule ccontr)
    assume "\<not> ?C"
    then have "queue_simple v = None" by (subst eq) (rule if_not_P)
    with assms show False by (simp only: option.distinct)
  qed
  then have "queue_simple v = Some (take 4 v, take 4 (drop 4 v))" by (subst eq) (rule if_P)
  with assms have "Some (g2, g3) = Some (take 4 v, take 4 (drop 4 v))" by (simp only:)
  then have g2: "g2 = take 4 v" and g3: "g3 = take 4 (drop 4 v)"
    by (simp_all only: option.inject prod.inject)
  have "take 4 (drop 4 v) @ drop (4 + 4) v = drop 4 v"
    by (rule take_drop_suite)
  then have "take 4 v @ take 4 (drop 4 v) @ drop 8 v = v"
    by simp
  then have v: "v = g2 @ g3 @ drop 8 v" unfolding g2 g3 by (rule sym)
  from c have "quatre_chiffres g2" "map minuscule g3 = ''.jpg''" "fin_de_chaine (drop 8 v)"
    unfolding g2 g3 by (rule conjunct1, rule conjunct2 [THEN conjunct1], rule conjunct2 [THEN conjunct2])
  with v show ?thesis by (intro exI [of _ "drop 8 v"] conjI)
qed

lemma queue_simple_forme:
  assumes "queue_simple v \<noteq> None"
  shows "v \<noteq> [] \<and> (length v = 8 \<and> last v \<noteq> CHR 0x0A \<or> length v = 9 \<and> last v = CHR 0x0A)"
proof -
  from assms obtain g2 g3 where "queue_simple v = Some (g2, g3)" by auto
  from queue_simple_elim [OF this] obtain z where
    v: "v = g2 @ g3 @ z" and q: "quatre_chiffres g2" and j: "map minuscule g3 = ''.jpg''"
    and z: "fin_de_chaine z" by auto
  from j have "length (map minuscule g3) = length ''.jpg''" by (rule arg_cong)
  then have l3: "length g3 = 4" by simp
  then have ne: "g3 \<noteq> []" by auto
  from j have "last (map minuscule g3) = last ''.jpg''" by (rule arg_cong)
  with ne have "minuscule (last g3) = CHR ''g''" by (simp add: last_map)
  then have nl: "last g3 \<noteq> CHR 0x0A" by (rule minuscule_newline)
  from q have l2: "length g2 = 4" by (simp add: quatre_chiffres_def)
  from z consider "z = []" | "z = [CHR 0x0A]" by (auto simp: fin_de_chaine_def)
  then show ?thesis
  proof cases
    case 1
    with v have v': "v = g2 @ g3" by simp
    from ne nl l2 l3 show ?thesis by (simp add: v')
  next
    case 2
    with v have v': "v = g2 @ g3 @ [CHR 0x0A]" by simp
    from l2 l3 show ?thesis by (simp add: v')
  qed
qed

lemma succes_unique_queue_simple: "succes_unique queue_simple s"
  by (rule succes_unique_par_fin [where n = 8 and c = "CHR 0x0A"])
    (use queue_simple_forme in auto)

lemma regle_simple_intro:
  assumes "CHR 0x0A \<notin> set p" "quatre_chiffres d" "map minuscule x = ''.jpg''" "fin_de_chaine z"
  shows "regle_simple (p @ d @ x @ z) = Some (p, d, x)"
proof -
  have "queue_simple (d @ x @ z) = Some (d, x)"
    using assms by (intro queue_simple_intro)
  then have "paresseux (\<lambda>c. c \<noteq> CHR 0x0A) queue_simple [] (p @ d @ x @ z) = Some ([] @ p, (d, x))"
    using assms(1) by (intro paresseux_complete succes_unique_queue_simple) auto
  then show ?thesis by (simp add: regle_simple_def)
qed

lemma regle_simple_elim:
  assumes "regle_simple url = Some (p, d, x)"
  shows "\<exists>z. url = p @ d @ x @ z \<and> CHR 0x0A \<notin> set p \<and> quatre_chiffres d
             \<and> map minuscule x = ''.jpg'' \<and> fin_de_chaine z"
proof -
  from assms have "paresseux (\<lambda>c. c \<noteq> CHR 0x0A) queue_simple [] url = Some (p, (d, x))"
    by (simp add: regle_simple_def)
  from paresseux_sound [OF this] obtain u v where
    uv: "url = u @ v" "p = [] @ u" "\<forall>c\<in>set u. c \<noteq> CHR 0x0A" "queue_simple v = Some (d, x)"
    by blast
  from queue_simple_elim [OF uv(4)] obtain z where
    z: "v = d @ x @ z" "quatre_chiffres d" "map minuscule x = ''.jpg''" "fin_de_chaine z"
    by (elim exE conjE) (rule that)
  from uv(2) have pu: "u = p" by simp
  from uv(1) z(1) have "url = p @ d @ x @ z" unfolding pu by simp
  moreover from uv(3) have "CHR 0x0A \<notin> set p" unfolding pu by blast
  ultimately show ?thesis using z(2-4) by (intro exI [of _ z] conjI)
qed






section \<open>Detecting the folder pattern\<close>

lemma analyser_url_forme_dossier:
  assumes "unq u = p @ d @ ''/'' @ m @ d' @ ''_'' @ e @ ''.jpg''"
    and "CHR 0x0A \<notin> set p" "quatre_chiffres d" "m \<noteq> []" "CHR ''/'' \<notin> set m"
    and "quatre_chiffres d'" "quatre_chiffres e"
  shows "analyser_url unq u = Some (Dossier p m (''_'' @ e @ ''.jpg'') 4)"
proof -
  have "fin_de_chaine []" by (simp add: fin_de_chaine_def)
  from regle_dossier_intro [OF assms(2-7) this]
  have "regle_dossier (unq u) = Some (p, d, m, d', ''_'' @ e @ ''.jpg'')"
    by (simp add: assms(1))
  then show ?thesis by (simp add: analyser_url_def Let_def)
qed

text \<open>
  C5, as amended: \<^verbatim>\<open>analyser_url\<close> returns the folder variant with \<^verbatim>\<open>digits\<close> 4 for every
  sample URL whose percent-decoded form is a prefix without newline, four digits, a
  slash, a non-empty middle part without slash, the same four digits and a suffix made
  of an underscore, four digits and \<^verbatim>\<open>.jpg\<close>; and the pattern returned renders a page
  number twice in the same way, zero-padded to four digits, once before the slash and
  once before the suffix.  The counterexample is the URL \<^verbatim>\<open>h/0010/x0010.jpg\<close>, which has
  the shape of the claim as stated and is given the simple variant.
\<close>

theorem analyser_url_dossier:
  assumes "unq u = p @ d @ ''/'' @ m @ d @ ''_'' @ e @ ''.jpg''"
    and "CHR 0x0A \<notin> set p" "quatre_chiffres d" "m \<noteq> []" "CHR ''/'' \<notin> set m"
    and "quatre_chiffres e"
  shows "analyser_url unq u = Some (Dossier p m (''_'' @ e @ ''.jpg'') 4) \<and>
         generer_url (Dossier p m (''_'' @ e @ ''.jpg'') 4) n
           = p @ format_0d 4 n @ ''/'' @ m @ format_0d 4 n @ ''_'' @ e @ ''.jpg''"
  using analyser_url_forme_dossier [of unq u p d m d e, OF assms(1-5) assms(3) assms(6)] by simp

theorem analyser_url_dossier_witness:
  "analyser_url unquote_ascii ''h/x_0010/x_0010_0001.jpg''
     = Some (Dossier ''h/x_'' ''x_'' ''_0001.jpg'' 4) \<and>
   generer_url (Dossier ''h/x_'' ''x_'' ''_0001.jpg'' 4) 7 = ''h/x_0007/x_0007_0001.jpg''"
proof -
  have u: "unquote_ascii ''h/x_0010/x_0010_0001.jpg''
           = ''h/x_'' @ ''0010'' @ ''/'' @ ''x_'' @ ''0010'' @ ''_'' @ ''0001'' @ ''.jpg''"
    by code_simp
  have f: "format_0d 4 7 = ''0007''" by code_simp
  have q: "quatre_chiffres ''0010''" "quatre_chiffres ''0001''" by code_simp+
  have p: "CHR 0x0A \<notin> set ''h/x_''" "''x_'' \<noteq> []" "CHR ''/'' \<notin> set ''x_''" by simp_all
  from analyser_url_dossier [of unquote_ascii "''h/x_0010/x_0010_0001.jpg''" "''h/x_''"
      "''0010''" "''x_''" "''0001''" 7, OF u p(1) q(1) p(2) p(3) q(2)]
  show ?thesis by (simp add: f)
qed

theorem analyser_url_dossier_counterexample:
  "analyser_url unquote_ascii ''h/0010/x0010.jpg'' = Some (Simple ''h/0010/x'' ''.jpg'' 4)"
  by code_simp




section \<open>Detecting the simple pattern\<close>

lemma analyser_url_forme_simple:
  assumes "regle_dossier (unq u) = None" "unq u = p @ d @ x @ z" "CHR 0x0A \<notin> set p"
    "quatre_chiffres d" "map minuscule x = ''.jpg''" "fin_de_chaine z"
  shows "analyser_url unq u = Some (Simple p x 4)"
proof -
  from regle_simple_intro [OF assms(3-6)]
  have "regle_simple (unq u) = Some (p, d, x)" unfolding assms(2) .
  moreover from assms(4) have "length d = 4" by (simp add: quatre_chiffres_def)
  ultimately show ?thesis using assms(1) by (simp add: analyser_url_def Let_def)
qed

lemma analyser_url_aucune_regle:
  assumes "regle_dossier (unq u) = None" "regle_simple (unq u) = None"
  shows "analyser_url unq u = None"
  using assms by (simp add: analyser_url_def Let_def)

lemma main_url_invalide:
  assumes "analyser_url (unquote E) (exemple_url C) = None"
  shows "main E C = Some (URL_invalide, [])"
  using assms by (simp add: main_def)

text \<open>
  C6, as amended: when the folder rule does not match, \<^verbatim>\<open>analyser_url\<close> returns the
  simple variant for every decoded URL that consists of a prefix without newline, four
  digits and \<^verbatim>\<open>.jpg\<close> in any letter case (and possibly one final newline), with the part
  before these four digits as prefix and \<^verbatim>\<open>digits\<close> 4; if neither rule matches it
  returns \<^verbatim>\<open>None\<close>, and \<^verbatim>\<open>main\<close> then stops without any network request.
\<close>

theorem analyser_url_simple:
  assumes "regle_dossier (unquote E (exemple_url C)) = None"
  shows "(unquote E (exemple_url C) = p @ d @ x @ z \<and> CHR 0x0A \<notin> set p \<and> quatre_chiffres d
            \<and> map minuscule x = ''.jpg'' \<and> fin_de_chaine z
          \<longrightarrow> analyser_url (unquote E) (exemple_url C) = Some (Simple p x 4))
       \<and> (regle_simple (unquote E (exemple_url C)) = None
          \<longrightarrow> analyser_url (unquote E) (exemple_url C) = None
              \<and> main E C = Some (URL_invalide, []))"
proof (intro conjI impI)
  assume "unquote E (exemple_url C) = p @ d @ x @ z \<and> CHR 0x0A \<notin> set p \<and> quatre_chiffres d
            \<and> map minuscule x = ''.jpg'' \<and> fin_de_chaine z"
  then show "analyser_url (unquote E) (exemple_url C) = Some (Simple p x 4)"
    using analyser_url_forme_simple [of "unquote E" "exemple_url C" p d x z] assms by (elim conjE)
next
  assume "regle_simple (unquote E (exemple_url C)) = None"
  with assms show n: "analyser_url (unquote E) (exemple_url C) = None"
    by (rule analyser_url_aucune_regle)
  then show "main E C = Some (URL_invalide, [])" by (rule main_url_invalide)
qed

theorem analyser_url_simple_counterexample:
  "regle_dossier (unquote_ascii ''d/page007.jpg'') = None \<and>
   analyser_url unquote_ascii ''d/page007.jpg'' = None"
  by code_simp

theorem analyser_url_simple_witness:
  "analyser_url (unquote env_exemple) (exemple_url (config_source\<lparr>exemple_url := ''d/page0007.JPG''\<rparr>))
     = Some (Simple ''d/page'' ''.JPG'' 4) \<and>
   main env_exemple (config_source\<lparr>exemple_url := ''d/page007.jpg''\<rparr>) = Some (URL_invalide, [])"
proof -
  let ?C1 = "config_source\<lparr>exemple_url := ''d/page0007.JPG''\<rparr>"
  let ?C2 = "config_source\<lparr>exemple_url := ''d/page007.jpg''\<rparr>"
  have e: "unquote env_exemple = unquote_ascii" by (simp add: env_exemple_def)
  have c1: "exemple_url ?C1 = ''d/page0007.JPG''" by simp
  have c2: "exemple_url ?C2 = ''d/page007.jpg''" by simp
  have "regle_dossier (unquote_ascii ''d/page0007.JPG'') = None" by code_simp
  then have h1: "regle_dossier (unquote env_exemple (exemple_url ?C1)) = None"
    by (simp only: e c1)
  have "unquote_ascii ''d/page0007.JPG'' = ''d/page'' @ ''0007'' @ ''.JPG'' @ []
            \<and> CHR 0x0A \<notin> set ''d/page'' \<and> quatre_chiffres ''0007''
            \<and> map minuscule ''.JPG'' = ''.jpg'' \<and> fin_de_chaine []"
    by code_simp
  then have a1: "unquote env_exemple (exemple_url ?C1) = ''d/page'' @ ''0007'' @ ''.JPG'' @ []
            \<and> CHR 0x0A \<notin> set ''d/page'' \<and> quatre_chiffres ''0007''
            \<and> map minuscule ''.JPG'' = ''.jpg'' \<and> fin_de_chaine []"
    unfolding e c1 .
  have "regle_dossier (unquote_ascii ''d/page007.jpg'') = None" by code_simp
  then have h2: "regle_dossier (unquote env_exemple (exemple_url ?C2)) = None"
    by (simp only: e c2)
  have "regle_simple (unquote_ascii ''d/page007.jpg'') = None" by code_simp
  then have a2: "regle_simple (unquote env_exemple (exemple_url ?C2)) = None"
    by (simp only: e c2)
  from analyser_url_simple [of env_exemple ?C1 "''d/page''" "''0007''" "''.JPG''" "[]",
      OF h1, THEN conjunct1, THEN mp, OF a1]
  have r1: "analyser_url (unquote env_exemple) (exemple_url ?C1) = Some (Simple ''d/page'' ''.JPG'' 4)" .
  from analyser_url_simple [of env_exemple ?C2 "[]" "[]" "[]" "[]",
      OF h2, THEN conjunct2, THEN mp, OF a2, THEN conjunct2]
  have r2: "main env_exemple ?C2 = Some (URL_invalide, [])" .
  from r1 r2 show ?thesis by (rule conjI)
qed

section \<open>The reason of a failed download\<close>

text \<open>
  C10, as amended: when the request completes without an exception and the answer is
  classified a failure (status other than 200, or a payload of at most 10000 bytes), the
  reason is \<^verbatim>\<open>size=\<close> followed by the number of bytes of the payload, whatever the status
  code; every exception raised inside the \<^verbatim>\<open>try\<close> block gives its own text as the reason:
  an exception of the request, and also an exception raised while the file of an
  accepted answer is written.
\<close>

theorem telecharger_page_raison:
  "(http_get E url = Inr (status_code, content) \<and> \<not> (status_code = 200 \<and> 10000 < length content)
      \<longrightarrow> telecharger_page E (page, url, dir)
            = (page, None, Some (''size='' @ str_nat (length content))))
   \<and> (http_get E url = Inl e \<longrightarrow> telecharger_page E (page, url, dir) = (page, None, Some e))
   \<and> (http_get E url = Inr (200, content) \<and> 10000 < length content
        \<and> ecrire E (nom_fichier dir page) content = Some e
      \<longrightarrow> telecharger_page E (page, url, dir) = (page, None, Some e))"
  by (simp add: telecharger_page_def Let_def)

theorem telecharger_page_raison_witness:
  "telecharger_page (env_exemple\<lparr>http_get := (\<lambda>url. Inr (404, ''Not Found''))\<rparr>) (3, ''u'', ''d'')
     = (3, None, Some ''size=9'') \<and>
   telecharger_page (env_exemple\<lparr>http_get := (\<lambda>url. Inl ''timed out'')\<rparr>) (3, ''u'', ''d'')
     = (3, None, Some ''timed out'') \<and>
   telecharger_page env_disque_plein (3, ''u'', ''d'')
     = (3, None, Some ''[Errno 28] No space left on device'')"
proof -
  let ?E1 = "env_exemple\<lparr>http_get := (\<lambda>url. Inr (404, ''Not Found''))\<rparr>"
  let ?E2 = "env_exemple\<lparr>http_get := (\<lambda>url. Inl ''timed out'')\<rparr>"
  let ?c = "replicate 10001 (CHR ''x'')"
  have a1: "http_get ?E1 ''u'' = Inr (404, ''Not Found'') \<and> \<not> (404 = (200::nat) \<and> 10000 < length ''Not Found'')"
    by simp
  have s: "''size='' @ str_nat (length ''Not Found'') = ''size=9''" by code_simp
  have a2: "http_get ?E2 ''u'' = Inl ''timed out''" by simp
  have a3: "http_get env_disque_plein ''u'' = Inr (200, ?c) \<and> 10000 < length ?c
            \<and> ecrire env_disque_plein (nom_fichier ''d'' 3) ?c = Some ''[Errno 28] No space left on device''"
    by (simp add: env_disque_plein_def env_exemple_def)
  from telecharger_page_raison [of ?E1 "''u''" 404 "''Not Found''" 3 "''d''" "[]",
      THEN conjunct1, THEN mp, OF a1]
  have r1: "telecharger_page ?E1 (3, ''u'', ''d'') = (3, None, Some ''size=9'')"
    unfolding s .
  from telecharger_page_raison [of ?E2 "''u''" 0 "[]" 3 "''d''" "''timed out''",
      THEN conjunct2, THEN conjunct1, THEN mp, OF a2]
  have r2: "telecharger_page ?E2 (3, ''u'', ''d'') = (3, None, Some ''timed out'')" .
  from telecharger_page_raison [of env_disque_plein "''u''" 0 ?c 3 "''d''"
      "''[Errno 28] No space left on device''", THEN conjunct2, THEN conjunct2, THEN mp, OF a3]
  have r3: "telecharger_page env_disque_plein (3, ''u'', ''d'')
     = (3, None, Some ''[Errno 28] No space left on device'')" .
  from r1 r2 r3 show ?thesis by (intro conjI)
qed

theorem telecharger_page_raison_counterexample:
  "http_get env_disque_plein ''u'' = Inr (200, replicate 10001 (CHR ''x'')) \<and>
   telecharger_page env_disque_plein (3, ''u'', ''d'')
     = (3, None, Some ''[Errno 28] No space left on device'')"
  by (simp add: telecharger_page_def env_disque_plein_def env_exemple_def Let_def)

section \<open>The loop of the packer\<close>

lemma floor_rat_numeral: "\<lfloor>numeral a / numeral b :: rat\<rfloor> = numeral a div numeral b"
  using floor_divide_of_int_eq [of "numeral a" "numeral b", where ?'a = rat] by simp

lemma floor_rat_un: "\<lfloor>1 / numeral b :: rat\<rfloor> = 1 div numeral b"
  using floor_divide_of_int_eq [of 1 "numeral b", where ?'a = rat] by simp

lemma str_nat_un: "str_nat (Suc 0) = ''1''"
  by code_simp

lemmas evaluer_packer =
  iteration_def py_slice_def py_borne_def ajuster_def py_int_def etat_initial_def Let_def
  floor_rat_numeral floor_rat_un




lemma py_slice_vide: "py_slice xs i (i + 0) = []"
  by (simp add: py_slice_def Let_def)


lemma iteration_bloquee:
  assumes "pages_par_pdf s = 0"
  shows "iteration E fichiers output_base max_size_mb max_w s = Inr s"
  using assms py_slice_vide [of fichiers "idx s"]
  by (simp add: iteration_def Let_def)

lemma boucle_pas:
  assumes "idx s < int (length fichiers)"
    and "iteration E fichiers output_base max_size_mb max_w s = Inr s'"
  shows "boucle E fichiers output_base max_size_mb max_w s
         = boucle E fichiers output_base max_size_mb max_w s'"
  using assms by (subst boucle.simps) simp


lemma boucle_jamais:
  assumes "boucle E fichiers output_base max_size_mb max_w s = Some r"
  shows "\<not> (pages_par_pdf s = 0 \<and> idx s < int (length fichiers))"
proof (rule boucle.raw_induct [where P = "\<lambda>E fichiers output_base max_size_mb max_w s r.
    \<not> (pages_par_pdf s = 0 \<and> idx s < int (length fichiers))", OF _ assms])
  fix b E fichiers output_base max_size_mb max_w and s :: etat and r
  assume IH: "\<And>E fichiers output_base max_size_mb max_w (s :: etat) r.
      b E fichiers output_base max_size_mb max_w s = Some r \<Longrightarrow>
      \<not> (pages_par_pdf s = 0 \<and> idx s < int (length fichiers))"
    and st: "(if idx s < int (length fichiers)
       then case iteration E fichiers output_base max_size_mb max_w s of
            Inl e \<Rightarrow> Some (Inl e)
          | Inr s' \<Rightarrow> b E fichiers output_base max_size_mb max_w s'
       else Some (Inr s)) = Some r"
  show "\<not> (pages_par_pdf s = 0 \<and> idx s < int (length fichiers))"
  proof
    assume bl: "pages_par_pdf s = 0 \<and> idx s < int (length fichiers)"
    with st have "b E fichiers output_base max_size_mb max_w s = Some r"
      by (simp add: iteration_bloquee)
    from IH [OF this] bl show False by simp
  qed
qed

lemma boucle_bloquee:
  assumes "pages_par_pdf s = 0" "idx s < int (length fichiers)"
  shows "boucle E fichiers output_base max_size_mb max_w s = None"
proof (cases "boucle E fichiers output_base max_size_mb max_w s")
  case None
  then show ?thesis .
next
  case (Some r)
  from boucle_jamais [OF this] assms show ?thesis by simp
qed

text \<open>
  C1: the loop does not terminate on every non-empty file list.  With a ceiling of 1 MB
  and three files, the first PDF takes two pages; when it measures 8 MiB the estimate
  becomes \<open>int(2 * 1 / 8) = 0\<close>, no lower bound is applied to it, every later batch is
  empty and the cursor stays at 2: the call never returns.
\<close>

theorem creer_pdf_split_boucle_infinie:
  "creer_pdf_split env_gros [''a'', ''b'', ''c''] ''out'' 1 2000 = None"
proof -
  let ?s0 = "\<lparr>pages_par_pdf = 2, pdf_num = 1, idx = 0, pdfs_crees = [], ecrits = []\<rparr>"
  let ?s1 = "\<lparr>pages_par_pdf = 0, pdf_num = 2, idx = 2,
              pdfs_crees = [(''out_1.pdf'', 8, 2)], ecrits = [(''out_1.pdf'', [''a'', ''b''])]\<rparr>"
  have i: "etat_initial [''a'', ''b'', ''c''] 1 = ?s0"
    by (simp add: evaluer_packer)
  have it: "iteration env_gros [''a'', ''b'', ''c''] ''out'' 1 2000 ?s0 = Inr ?s1"
    by (simp add: evaluer_packer env_gros_def env_exemple_def str_nat_un)
  have "boucle env_gros [''a'', ''b'', ''c''] ''out'' 1 2000 ?s0
        = boucle env_gros [''a'', ''b'', ''c''] ''out'' 1 2000 ?s1"
    by (rule boucle_pas [OF _ it]) simp
  also have "\<dots> = None" by (rule boucle_bloquee) simp_all
  finally show ?thesis by (simp add: creer_pdf_split_def executer_pdf_split_def i)
qed

text \<open>
  C8: with a ceiling of a quarter of a megabyte the first estimate is
  \<open>int(0.25 * 1024 / 350) = 0\<close>, and a single file, however large its PDF would be, is
  never packed: the call never returns.
\<close>

theorem creer_pdf_split_un_fichier_boucle_infinie:
  "creer_pdf_split env_gros [''a''] ''out'' (1 / 4) 2000 = None"
proof -
  let ?s0 = "\<lparr>pages_par_pdf = 0, pdf_num = 1, idx = 0, pdfs_crees = [], ecrits = []\<rparr>"
  have i: "etat_initial [''a''] (1 / 4) = ?s0"
    by (simp add: evaluer_packer)
  have "boucle env_gros [''a''] ''out'' (1 / 4) 2000 ?s0 = None"
    by (rule boucle_bloquee) simp_all
  then show ?thesis by (simp add: creer_pdf_split_def executer_pdf_split_def i)
qed

section \<open>The feedback correction\<close>




section \<open>Coverage of the file list\<close>









end
